theory Spec2Isabelle
  imports Main "HOL-Library.AList"
begin

section \<open>The worker pool of the HydraScraper backend\<close>

text \<open>
  The class \<^verbatim>\<open>WorkerPool\<close> of the backend's entry point keeps three structures:
  the array \<^verbatim>\<open>workers\<close>, the array \<^verbatim>\<open>taskQueue\<close> and the Map
  \<^verbatim>\<open>activeWorkers\<close> from task ids to tasks. Everything runs on the single event loop
  of Node.js, so every method call and every event handler is one atomic transition of the
  pool. The model is a record of the pool's state, one function per method and per event
  handler, and a function \<open>run\<close> that applies a list of events in order.

  JavaScript values that the pool never inspects (the content of a payload, the worker's
  result, the error object) are values of a type variable \<open>'v\<close>. A worker's message is
  taken to be an object, so reading \<^verbatim>\<open>result.taskId\<close> does not throw.

  A method that throws leaves the pool as it has changed it so far. Such a method returns a
  pair: the exception thrown, if any, and the pool.
\<close>

subsection \<open>Data\<close>

text \<open>
  A Promise made by \<^verbatim>\<open>execute\<close> is identified by its index in the pool's list
  \<open>promises\<close>. Its entry is the list of the calls of its \<^verbatim>\<open>resolve\<close> and
  \<^verbatim>\<open>reject\<close> functions made so far, oldest first: the Promise is pending while the list is
  empty, and its first element is the outcome the caller observes.
\<close>

datatype js_error = DataCloneError

datatype 'v settlement = Resolved 'v | Rejected 'v | Rejected_with js_error

text \<open>The state of a Promise as its holder observes it: pending, or the first call.\<close>

definition outcome :: "'v settlement list \<Rightarrow> 'v settlement option" where
  "outcome p = (case p of [] \<Rightarrow> None | x # _ \<Rightarrow> Some x)"

text \<open>
  The argument of \<^verbatim>\<open>execute\<close>. \<^verbatim>\<open>postMessage\<close> copies it with the structured clone
  algorithm, which throws \<^verbatim>\<open>DataCloneError\<close> on a value it cannot copy, such as a
  function.
\<close>

datatype 'v payload = Cloneable 'v | Uncloneable 'v

text \<open>
  The object literal \<^verbatim>\<open>task\<close> of \<^verbatim>\<open>execute\<close>. The fields \<^verbatim>\<open>resolve\<close> and
  \<^verbatim>\<open>reject\<close> are the two functions of one Promise: the field \<open>handle\<close> is that Promise's
  index. The field \<open>worker\<close> is the index of the worker in \<^verbatim>\<open>this.workers\<close>.
\<close>

record 'v task =
  taskId :: string
  data :: "'v payload"
  handle :: nat
  worker :: "nat option"

text \<open>
  A \<^verbatim>\<open>Worker\<close> object, as far as the pool touches it: the property \<^verbatim>\<open>taskId\<close> that the
  pool stores on it (\<^verbatim>\<open>null\<close> is \<open>None\<close>), the values its \<^verbatim>\<open>postMessage\<close> has
  sent, oldest first, and whether its \<^verbatim>\<open>terminate\<close> has been called.
\<close>

record 'v worker_thread =
  w_taskId :: "string option"
  posted :: "'v list"
  terminated :: bool

text \<open>The lines written to the console by the pool and by the handler of uncaught exceptions.\<close>

datatype 'v console_line =
    Worker_error nat 'v
  | Worker_exited nat int
  | Pool_initialized nat
  | Init_failed
  | Uncaught_exception js_error

record 'v pool =
  workers :: "'v worker_thread list"
  taskQueue :: "'v task list"
  activeWorkers :: "(string \<times> 'v task) list"
  poolSize :: nat
  promises :: "'v settlement list list"
  console :: "'v console_line list"
  exited :: bool

text \<open>
  \<^verbatim>\<open>activeWorkers\<close> is a JavaScript Map, which iterates in insertion order and whose
  \<^verbatim>\<open>set\<close> on a key already present replaces the value in place. It is an association
  list with \<open>AList.update\<close> for \<^verbatim>\<open>set\<close>, \<open>AList.delete\<close> for \<^verbatim>\<open>delete\<close>,
  \<open>map_of\<close> for \<^verbatim>\<open>get\<close> and \<open>length\<close> for \<^verbatim>\<open>size\<close>.

  The field \<open>exited\<close> is not of the class: it records that the process has ended through
  the handler of \<^verbatim>\<open>uncaughtException\<close>, which calls \<^verbatim>\<open>process.exit(1)\<close>.
\<close>

subsection \<open>The constructor\<close>

definition new_worker :: "'v worker_thread" where
  "new_worker = \<lparr>w_taskId = None, posted = [], terminated = False\<rparr>"

text \<open>
  \<^verbatim>\<open>initializeWorkers\<close> pushes one worker per iteration inside a \<^verbatim>\<open>try\<close>. The argument
  \<open>throws\<close> is the index of the first iteration in which \<^verbatim>\<open>new Worker\<close> throws, if any:
  the loop stops there, the workers pushed before stay, and the \<^verbatim>\<open>catch\<close> logs.
\<close>

definition initializeWorkers :: "nat option \<Rightarrow> 'v pool \<Rightarrow> 'v pool" where
  "initializeWorkers throws s =
     (case throws of
        None \<Rightarrow>
          s\<lparr>workers := workers s @ replicate (poolSize s) new_worker,
            console := console s @ [Pool_initialized (poolSize s)]\<rparr>
      | Some k \<Rightarrow>
          if k < poolSize s
          then s\<lparr>workers := workers s @ replicate k new_worker,
                 console := console s @ [Init_failed]\<rparr>
          else s\<lparr>workers := workers s @ replicate (poolSize s) new_worker,
                 console := console s @ [Pool_initialized (poolSize s)]\<rparr>)"

definition new_WorkerPool :: "nat \<Rightarrow> nat option \<Rightarrow> 'v pool" where
  "new_WorkerPool n throws =
     initializeWorkers throws
       \<lparr>workers = [], taskQueue = [], activeWorkers = [], poolSize = n,
        promises = [], console = [], exited = False\<rparr>"

subsection \<open>Assignment\<close>

text \<open>
  The test \<^verbatim>\<open>!w.taskId\<close>: \<^verbatim>\<open>null\<close> and the empty string are the falsy values a
  \<^verbatim>\<open>taskId\<close> can have.
\<close>

definition falsy :: "string option \<Rightarrow> bool" where
  "falsy t = (case t of None \<Rightarrow> True | Some k \<Rightarrow> k = [])"

text \<open>
  \<^verbatim>\<open>this.workers.find(w => !w.taskId)\<close>: the first worker, in the order of the array, that
  passes the test, as its index.
\<close>

definition availableWorker :: "'v pool \<Rightarrow> nat option" where
  "availableWorker s =
     List.find (\<lambda>i. falsy (w_taskId (workers s ! i))) [0..<length (workers s)]"

text \<open>\<^verbatim>\<open>worker.postMessage(value)\<close>: the worker with the value sent, or the exception.\<close>

definition postMessage :: "'v payload \<Rightarrow> 'v worker_thread \<Rightarrow> js_error + 'v worker_thread" where
  "postMessage p w =
     (case p of
        Cloneable v \<Rightarrow> Inr (w\<lparr>posted := posted w @ [v]\<rparr>)
      | Uncloneable v \<Rightarrow> Inl DataCloneError)"

text \<open>
  \<^verbatim>\<open>assignTask\<close> marks the worker, sets the task's worker, stores the task in the Map and
  calls \<^verbatim>\<open>postMessage\<close> last: when that throws, the mark and the entry of the Map stay.
\<close>

definition assignTask :: "nat \<Rightarrow> 'v task \<Rightarrow> 'v pool \<Rightarrow> js_error option \<times> 'v pool" where
  "assignTask w t s =
     (let wk = (workers s ! w)\<lparr>w_taskId := Some (taskId t)\<rparr>;
          t' = t\<lparr>worker := Some w\<rparr>;
          s' = s\<lparr>workers := (workers s)[w := wk],
                 activeWorkers := AList.update (taskId t') t' (activeWorkers s)\<rparr>
      in case postMessage (data t') wk of
           Inl e \<Rightarrow> (Some e, s')
         | Inr wk' \<Rightarrow> (None, s'\<lparr>workers := (workers s')[w := wk']\<rparr>))"

text \<open>
  \<^verbatim>\<open>processQueue\<close> has no \<^verbatim>\<open>try\<close>: an exception of \<^verbatim>\<open>assignTask\<close> ends it, with
  the task already taken from the queue.
\<close>

function processQueue :: "'v pool \<Rightarrow> js_error option \<times> 'v pool" where
  "processQueue s =
     (case taskQueue s of
        [] \<Rightarrow> (None, s)
      | t # rest \<Rightarrow>
          (case availableWorker s of
             None \<Rightarrow> (None, s)
           | Some w \<Rightarrow>
               (case assignTask w t (s\<lparr>taskQueue := rest\<rparr>) of
                  (Some e, s') \<Rightarrow> (Some e, s')
                | (None, s') \<Rightarrow> processQueue s')))"
  by pat_completeness auto
termination
  by (relation "measure (\<lambda>s. length (taskQueue s))")
     (auto simp: assignTask_def Let_def split: sum.splits)

declare processQueue.simps [simp del]

subsection \<open>Submission\<close>

text \<open>
  A call of \<^verbatim>\<open>resolve\<close> or \<^verbatim>\<open>reject\<close> of the Promise with index \<open>h\<close>.
\<close>

definition settle :: "nat \<Rightarrow> 'v settlement \<Rightarrow> 'v pool \<Rightarrow> 'v pool" where
  "settle h x s = s\<lparr>promises := (promises s)[h := promises s ! h @ [x]]\<rparr>"

text \<open>
  \<^verbatim>\<open>execute(data)\<close> returns the Promise at once; the executor runs synchronously inside the
  constructor of the Promise, and the constructor turns an exception of the executor into a
  call of \<^verbatim>\<open>reject\<close>. The argument \<open>suffix\<close> stands for the text that
  \<^verbatim>\<open>Date.now()\<close> and \<^verbatim>\<open>Math.random()\<close> contribute to the task id.
\<close>

definition execute :: "string \<Rightarrow> 'v payload \<Rightarrow> 'v pool \<Rightarrow> nat \<times> 'v pool" where
  "execute suffix d s =
     (let h = length (promises s);
          s1 = s\<lparr>promises := promises s @ [[]]\<rparr>;
          t = \<lparr>taskId = ''task-'' @ suffix, data = d, handle = h, worker = None\<rparr>
      in (h, case availableWorker s1 of
               Some w \<Rightarrow>
                 (case assignTask w t s1 of
                    (None, s2) \<Rightarrow> s2
                  | (Some e, s2) \<Rightarrow> settle h (Rejected_with e) s2)
             | None \<Rightarrow> s1\<lparr>taskQueue := taskQueue s1 @ [t]\<rparr>))"

subsection \<open>Event handlers\<close>

text \<open>
  The handler of \<^verbatim>\<open>'message'\<close>. \<open>k\<close> is \<^verbatim>\<open>result.taskId\<close> when that is a string and
  \<open>None\<close> otherwise (the Map holds string keys only); \<open>r\<close> is the whole \<^verbatim>\<open>result\<close>.
  The handler does not look at the worker that sent the message. An exception of
  \<^verbatim>\<open>processQueue\<close> leaves the handler.
\<close>

definition on_message :: "string option \<Rightarrow> 'v \<Rightarrow> 'v pool \<Rightarrow> js_error option \<times> 'v pool" where
  "on_message k r s =
     (case k of
        None \<Rightarrow> (None, s)
      | Some tid \<Rightarrow>
          (case map_of (activeWorkers s) tid of
             None \<Rightarrow> (None, s)
           | Some t \<Rightarrow>
               processQueue
                 ((settle (handle t) (Resolved r) s)
                    \<lparr>activeWorkers := AList.delete tid (activeWorkers s)\<rparr>)))"

text \<open>
  The handler of \<^verbatim>\<open>'error'\<close> on worker \<open>i\<close>: it logs, takes the key of the first entry of
  the Map whose task runs on this worker, and goes on when that key is truthy. The key comes
  from the Map, so \<^verbatim>\<open>get\<close> finds a task; the branch \<open>None\<close> of the inner \<open>case\<close> is
  never taken.
\<close>

definition on_error :: "nat \<Rightarrow> 'v \<Rightarrow> 'v pool \<Rightarrow> js_error option \<times> 'v pool" where
  "on_error i err s =
     (let s1 = s\<lparr>console := console s @ [Worker_error i err]\<rparr>
      in case List.find (\<lambda>(k, t). worker t = Some i) (activeWorkers s1) of
           None \<Rightarrow> (None, s1)
         | Some (tid, _) \<Rightarrow>
             if tid = [] then (None, s1)
             else (case map_of (activeWorkers s1) tid of
                     None \<Rightarrow> (None, s1)
                   | Some t \<Rightarrow>
                       processQueue
                         ((settle (handle t) (Rejected err) s1)
                            \<lparr>activeWorkers := AList.delete tid (activeWorkers s1)\<rparr>)))"

text \<open>The handler of \<^verbatim>\<open>'exit'\<close> on worker \<open>i\<close>: it logs a non-zero exit code.\<close>

definition on_exit :: "nat \<Rightarrow> int \<Rightarrow> 'v pool \<Rightarrow> 'v pool" where
  "on_exit i code s =
     (if code \<noteq> 0 then s\<lparr>console := console s @ [Worker_exited i code]\<rparr> else s)"

text \<open>\<^verbatim>\<open>terminate()\<close> calls \<^verbatim>\<open>terminate\<close> on every worker.\<close>

definition terminate :: "'v pool \<Rightarrow> 'v pool" where
  "terminate s = s\<lparr>workers := map (\<lambda>w. w\<lparr>terminated := True\<rparr>) (workers s)\<rparr>"

subsection \<open>Statistics\<close>

text \<open>The object built by the handler of \<^verbatim>\<open>GET /api/workers/stats\<close>.\<close>

record stats =
  st_poolSize :: nat
  st_activeWorkers :: nat
  queuedTasks :: nat
  totalWorkers :: nat

definition get_stats :: "'v pool \<Rightarrow> stats" where
  "get_stats s =
     \<lparr>st_poolSize = poolSize s,
      st_activeWorkers = length (activeWorkers s),
      queuedTasks = length (taskQueue s),
      totalWorkers = length (workers s)\<rparr>"

text \<open>
  The handler reports no idle count. The number of workers that pass the pool's own test
  for an available worker, and the number that do not:
\<close>

definition idle_count :: "'v pool \<Rightarrow> nat" where
  "idle_count s = length (filter (\<lambda>w. falsy (w_taskId w)) (workers s))"

definition busy_count :: "'v pool \<Rightarrow> nat" where
  "busy_count s = length (filter (\<lambda>w. \<not> falsy (w_taskId w)) (workers s))"

subsection \<open>Events and runs\<close>

text \<open>
  One event per transition of the pool: a call of \<^verbatim>\<open>execute\<close>, one of the three events of
  a worker, a call of \<^verbatim>\<open>terminate\<close>. Handlers are registered on the workers of the array
  only, so an event of a worker that does not exist changes nothing. An exception that
  leaves a handler reaches the handler of \<^verbatim>\<open>uncaughtException\<close>, which logs it and ends
  the process; after that nothing happens any more.
\<close>

datatype 'v event =
    Execute string "'v payload"
  | Message nat "string option" 'v
  | Error nat 'v
  | Exit nat int
  | Terminate

definition uncaught :: "js_error option \<times> 'v pool \<Rightarrow> 'v pool" where
  "uncaught r =
     (case r of
        (None, s) \<Rightarrow> s
      | (Some e, s) \<Rightarrow> s\<lparr>console := console s @ [Uncaught_exception e], exited := True\<rparr>)"

fun handle_event :: "'v event \<Rightarrow> 'v pool \<Rightarrow> 'v pool" where
  "handle_event (Execute suffix d) s = snd (execute suffix d s)"
| "handle_event (Message i k r) s =
     (if i < length (workers s) then uncaught (on_message k r s) else s)"
| "handle_event (Error i err) s =
     (if i < length (workers s) then uncaught (on_error i err s) else s)"
| "handle_event (Exit i code) s = (if i < length (workers s) then on_exit i code s else s)"
| "handle_event Terminate s = terminate s"

definition step :: "'v event \<Rightarrow> 'v pool \<Rightarrow> 'v pool" where
  "step e s = (if exited s then s else handle_event e s)"

fun run :: "'v event list \<Rightarrow> 'v pool \<Rightarrow> 'v pool" where
  "run [] s = s"
| "run (e # es) s = run es (step e s)"

subsection \<open>Tasks submitted by a run\<close>

text \<open>
  The tasks that the calls of \<^verbatim>\<open>execute\<close> in a list of events create, in order, when the
  first of them gets the Promise with index \<open>h\<close>.
\<close>

fun submitted :: "nat \<Rightarrow> 'v event list \<Rightarrow> 'v task list" where
  "submitted h [] = []"
| "submitted h (Execute suffix d # es) =
     \<lparr>taskId = ''task-'' @ suffix, data = d, handle = h, worker = None\<rparr> # submitted (Suc h) es"
| "submitted h (e # es) = submitted h es"

subsection \<open>The effect of an assignment\<close>

text \<open>
  The calls made on the Promise of a task by the time \<^verbatim>\<open>execute\<close> has assigned it: none
  when \<^verbatim>\<open>postMessage\<close> copied the payload, the rejection with the exception when it threw.
\<close>

definition calls_at_assignment :: "'v payload \<Rightarrow> 'v settlement list" where
  "calls_at_assignment d =
     (case d of Cloneable v \<Rightarrow> [] | Uncloneable v \<Rightarrow> [Rejected_with DataCloneError])"

text \<open>
  The worker that \<^verbatim>\<open>assignTask\<close> leaves behind: marked with the id of the task, and sent
  the payload when that could be copied.
\<close>

definition assigned_worker :: "'v task \<Rightarrow> 'v worker_thread \<Rightarrow> 'v worker_thread" where
  "assigned_worker t wk =
     wk\<lparr>w_taskId := Some (taskId t),
        posted := (case data t of Cloneable v \<Rightarrow> posted wk @ [v] | Uncloneable v \<Rightarrow> posted wk)\<rparr>"

section \<open>Invariants of the pool\<close>

text \<open>
  What holds in every state that a run reaches from a new pool: the array of workers is no
  longer than the pool size; the Map has no more entries than there are marked workers; the
  keys of the Map are distinct, non-empty and the ids of their tasks; the Promises of the
  tasks the pool holds (\<open>held\<close>) are distinct and allocated, pending for a queued task and
  with the calls of the assignment for a task in the Map; every Promise has had at most one
  call, or two when the first was the rejection with the exception; a worker has been sent
  at most one payload, and none while it is unmarked; while a task waits in the queue no
  worker is available; and the process has not ended.
\<close>

definition inv_size :: "'v pool \<Rightarrow> bool" where
  "inv_size s \<longleftrightarrow> length (workers s) \<le> poolSize s"

definition inv_count :: "'v pool \<Rightarrow> bool" where
  "inv_count s \<longleftrightarrow> length (activeWorkers s) \<le> busy_count s"

definition inv_keys :: "'v pool \<Rightarrow> bool" where
  "inv_keys s \<longleftrightarrow>
     distinct (map fst (activeWorkers s)) \<and>
     (\<forall>(k, t) \<in> set (activeWorkers s). k = taskId t \<and> k \<noteq> [])"

definition held :: "'v pool \<Rightarrow> nat list" where
  "held s = map handle (taskQueue s) @ map (\<lambda>(k, t). handle t) (activeWorkers s)"

definition inv_handles :: "'v pool \<Rightarrow> bool" where
  "inv_handles s \<longleftrightarrow>
     distinct (held s) \<and>
     (\<forall>t \<in> set (taskQueue s). handle t < length (promises s) \<and> promises s ! handle t = []) \<and>
     (\<forall>(k, t) \<in> set (activeWorkers s).
        handle t < length (promises s) \<and> promises s ! handle t = calls_at_assignment (data t))"

definition inv_once :: "'v pool \<Rightarrow> bool" where
  "inv_once s \<longleftrightarrow>
     (\<forall>p \<in> set (promises s). length p \<le> 1 \<or> (\<exists>x. p = [Rejected_with DataCloneError, x]))"

definition inv_posted :: "'v pool \<Rightarrow> bool" where
  "inv_posted s \<longleftrightarrow>
     (\<forall>w \<in> set (workers s). length (posted w) \<le> 1 \<and> (falsy (w_taskId w) \<longrightarrow> posted w = []))"

definition inv_waiting :: "'v pool \<Rightarrow> bool" where
  "inv_waiting s \<longleftrightarrow> (taskQueue s \<noteq> [] \<longrightarrow> availableWorker s = None)"

definition pool_inv :: "'v pool \<Rightarrow> bool" where
  "pool_inv s \<longleftrightarrow>
     inv_size s \<and> inv_count s \<and> inv_keys s \<and> inv_handles s \<and> inv_once s \<and> inv_posted s \<and>
     inv_waiting s \<and> \<not> exited s"

section \<open>Lemmas\<close>

subsection \<open>Finding the available worker\<close>

lemma availableWorker_SomeD:
  assumes "availableWorker s = Some w"
  shows "w < length (workers s)" and "falsy (w_taskId (workers s ! w))"
    and "\<forall>j<w. \<not> falsy (w_taskId (workers s ! j))"
proof -
  from assms obtain i where i: "i < length [0..<length (workers s)]"
      "falsy (w_taskId (workers s ! ([0..<length (workers s)] ! i)))"
      "w = [0..<length (workers s)] ! i"
      "\<forall>j<i. \<not> falsy (w_taskId (workers s ! ([0..<length (workers s)] ! j)))"
    unfolding availableWorker_def find_Some_iff by blast
  from i(1) have il: "i < length (workers s)" by simp
  with i(3) have wi: "w = i" by simp
  show "w < length (workers s)" using il wi by simp
  show "falsy (w_taskId (workers s ! w))" using i(2) il wi by simp
  show "\<forall>j<w. \<not> falsy (w_taskId (workers s ! j))"
  proof (intro allI impI)
    fix j assume "j < w"
    with wi il i(4) show "\<not> falsy (w_taskId (workers s ! j))" by auto
  qed
qed

lemma availableWorker_None:
  "availableWorker s = None \<longleftrightarrow> (\<forall>w<length (workers s). \<not> falsy (w_taskId (workers s ! w)))"
  unfolding availableWorker_def find_None_iff by auto

lemma availableWorker_cong:
  "map w_taskId (workers s') = map w_taskId (workers s) \<Longrightarrow> availableWorker s' = availableWorker s"
proof -
  assume a: "map w_taskId (workers s') = map w_taskId (workers s)"
  then have l: "length (workers s') = length (workers s)" by (metis length_map)
  have "\<And>i. i < length (workers s) \<Longrightarrow> w_taskId (workers s' ! i) = w_taskId (workers s ! i)"
    using a l by (metis nth_map)
  then show ?thesis
    unfolding availableWorker_def l by (intro find_cong) auto
qed

lemma busy_filter_update:
  "w < length ws \<Longrightarrow> falsy (w_taskId (ws ! w)) \<Longrightarrow> \<not> falsy (w_taskId x) \<Longrightarrow>
   length (filter (\<lambda>w. \<not> falsy (w_taskId w)) (ws[w := x])) =
   Suc (length (filter (\<lambda>w. \<not> falsy (w_taskId w)) ws))"
proof (induction ws arbitrary: w)
  case Nil
  then show ?case by simp
next
  case (Cons a ws)
  then show ?case by (cases w) auto
qed

lemma length_update_le: "length (AList.update k v al) \<le> Suc (length al)"
  by (induction al) auto

lemma set_update_subset: "set (AList.update k v al) \<subseteq> insert (k, v) (set al)"
  by (induction al) auto

lemma distinct_map_update:
  "distinct (map f al) \<Longrightarrow> f (k, v) \<notin> f ` set al \<Longrightarrow> distinct (map f (AList.update k v al))"
proof (induction al)
  case Nil
  then show ?case by simp
next
  case (Cons p al)
  have "set (AList.update k v al) \<subseteq> insert (k, v) (set al)" by (rule set_update_subset)
  then have "f ` set (AList.update k v al) \<subseteq> insert (f (k, v)) (f ` set al)" by auto
  with Cons show ?case by auto
qed

lemma set_delete_subset: "set (AList.delete k al) \<subseteq> set al"
  by (auto simp: AList.delete_eq)

lemma distinct_map_delete:
  "distinct (map f al) \<Longrightarrow> distinct (map f (AList.delete k al))"
  by (simp add: AList.delete_eq distinct_map_filter)


lemma availableWorker_taskQueue [simp]: "availableWorker (s\<lparr>taskQueue := q\<rparr>) = availableWorker s"
  and availableWorker_promises [simp]: "availableWorker (s\<lparr>promises := p\<rparr>) = availableWorker s"
  and availableWorker_console [simp]: "availableWorker (s\<lparr>console := c\<rparr>) = availableWorker s"
  and availableWorker_activeWorkers [simp]: "availableWorker (s\<lparr>activeWorkers := a\<rparr>) = availableWorker s"
  and availableWorker_exited [simp]: "availableWorker (s\<lparr>exited := b\<rparr>) = availableWorker s"
  by (simp_all add: availableWorker_def)

lemma workers_settle [simp]: "workers (settle h x s) = workers s"
  and taskQueue_settle [simp]: "taskQueue (settle h x s) = taskQueue s"
  and activeWorkers_settle [simp]: "activeWorkers (settle h x s) = activeWorkers s"
  and poolSize_settle [simp]: "poolSize (settle h x s) = poolSize s"
  and console_settle [simp]: "console (settle h x s) = console s"
  and exited_settle [simp]: "exited (settle h x s) = exited s"
  and length_promises_settle [simp]: "length (promises (settle h x s)) = length (promises s)"
  and availableWorker_settle [simp]: "availableWorker (settle h x s) = availableWorker s"
  by (simp_all add: settle_def availableWorker_def)

subsection \<open>What assignTask and execute return\<close>

lemma assignTask_eq:
  "assignTask w t s =
     (case data t of Cloneable v \<Rightarrow> None | Uncloneable v \<Rightarrow> Some DataCloneError,
      s\<lparr>workers := (workers s)[w := assigned_worker t (workers s ! w)],
        activeWorkers := AList.update (taskId t) (t\<lparr>worker := Some w\<rparr>) (activeWorkers s)\<rparr>)"
proof (cases "data t")
  case (Cloneable v)
  then show ?thesis
    by (cases "w < length (workers s)")
       (simp_all add: assignTask_def postMessage_def Let_def assigned_worker_def)
next
  case (Uncloneable v)
  then show ?thesis
    by (simp add: assignTask_def postMessage_def Let_def assigned_worker_def)
qed

lemma execute_eq:
  "execute x d s =
     (length (promises s),
      case availableWorker s of
        None \<Rightarrow>
          s\<lparr>promises := promises s @ [[]],
            taskQueue := taskQueue s @
              [\<lparr>taskId = ''task-'' @ x, data = d, handle = length (promises s), worker = None\<rparr>]\<rparr>
      | Some w \<Rightarrow>
          s\<lparr>promises := promises s @ [calls_at_assignment d],
            workers := (workers s)[w := assigned_worker
              \<lparr>taskId = ''task-'' @ x, data = d, handle = length (promises s), worker = None\<rparr>
              (workers s ! w)],
            activeWorkers := AList.update (''task-'' @ x)
              \<lparr>taskId = ''task-'' @ x, data = d, handle = length (promises s), worker = Some w\<rparr>
              (activeWorkers s)\<rparr>)"
proof (cases "availableWorker s")
  case None
  then show ?thesis by (simp add: execute_def Let_def)
next
  case (Some w)
  show ?thesis
  proof (cases d)
    case (Cloneable v)
    then show ?thesis using Some
      by (simp add: execute_def Let_def assignTask_eq calls_at_assignment_def)
  next
    case (Uncloneable v)
    then show ?thesis using Some
      by (simp add: execute_def Let_def assignTask_eq calls_at_assignment_def settle_def)
  qed
qed

subsection \<open>processQueue where nothing can be assigned\<close>

lemma processQueue_saturated: "availableWorker s = None \<Longrightarrow> processQueue s = (None, s)"
  by (simp add: processQueue.simps split: list.splits)

lemma processQueue_empty: "taskQueue s = [] \<Longrightarrow> processQueue s = (None, s)"
  by (simp add: processQueue.simps)

lemma processQueue_waiting: "inv_waiting s \<Longrightarrow> processQueue s = (None, s)"
  by (cases "taskQueue s = []") (simp_all add: inv_waiting_def processQueue_empty processQueue_saturated)

subsection \<open>The invariant is kept\<close>

lemma calls_at_assignment_once:
  "length (calls_at_assignment d) \<le> 1"
  by (simp add: calls_at_assignment_def split: payload.splits)

lemma assigned_worker_busy: "k \<noteq> [] \<Longrightarrow> taskId t = k \<Longrightarrow> \<not> falsy (w_taskId (assigned_worker t wk))"
  by (simp add: assigned_worker_def falsy_def)

lemma enqueue_inv:
  assumes "pool_inv s" "availableWorker s = None" "handle t = length (promises s)"
  shows "pool_inv (s\<lparr>promises := promises s @ [[]], taskQueue := taskQueue s @ [t]\<rparr>)"
proof -
  let ?f = "\<lambda>(k, t). handle (t :: 'v task)"
  let ?s = "s\<lparr>promises := promises s @ [[]], taskQueue := taskQueue s @ [t]\<rparr>"
  from assms(1) have d: "distinct (map handle (taskQueue s) @ map ?f (activeWorkers s))"
    and q: "\<forall>t \<in> set (taskQueue s). handle t < length (promises s) \<and> promises s ! handle t = []"
    and a: "\<forall>(k, t) \<in> set (activeWorkers s).
        handle t < length (promises s) \<and> promises s ! handle t = calls_at_assignment (data t)"
    by (simp_all add: pool_inv_def inv_handles_def held_def)
  have fq: "handle t \<notin> handle ` set (taskQueue s)" using q assms(3) by auto
  have fa: "handle t \<notin> ?f ` set (activeWorkers s)" using a assms(3) by auto
  have 1: "inv_size ?s" using assms(1) by (simp add: pool_inv_def inv_size_def)
  have 2: "inv_count ?s" using assms(1) by (simp add: pool_inv_def inv_count_def busy_count_def)
  have 3: "inv_keys ?s" using assms(1) by (simp add: pool_inv_def inv_keys_def)
  have 4: "inv_handles ?s"
  proof -
    have h: "held ?s = map handle (taskQueue s) @ handle t # map ?f (activeWorkers s)"
      by (simp add: held_def)
    have dist: "distinct (held ?s)" unfolding h using d fq fa by auto
    have q': "\<forall>u \<in> set (taskQueue ?s). handle u < length (promises ?s) \<and> promises ?s ! handle u = []"
      using q assms(3) by (auto simp: nth_append)
    have a': "\<forall>(k, u) \<in> set (activeWorkers ?s).
        handle u < length (promises ?s) \<and> promises ?s ! handle u = calls_at_assignment (data u)"
      using a by (auto simp: nth_append)
    from dist q' a' show ?thesis by (simp add: inv_handles_def)
  qed
  have 5: "inv_once ?s" using assms(1) by (simp add: pool_inv_def inv_once_def)
  have 6: "inv_posted ?s" using assms(1) by (simp add: pool_inv_def inv_posted_def)
  have 7: "inv_waiting ?s" using assms(2) by (simp add: inv_waiting_def)
  have 8: "\<not> exited ?s" using assms(1) by (simp add: pool_inv_def)
  from 1 2 3 4 5 6 7 8 show ?thesis by (simp add: pool_inv_def)
qed

lemma assign_new_inv:
  assumes "pool_inv s" "availableWorker s = Some w" "handle t = length (promises s)"
    and "taskId t \<noteq> []" "worker t = None"
  shows "pool_inv (s\<lparr>promises := promises s @ [calls_at_assignment (data t)],
            workers := (workers s)[w := assigned_worker t (workers s ! w)],
            activeWorkers := AList.update (taskId t) (t\<lparr>worker := Some w\<rparr>) (activeWorkers s)\<rparr>)"
proof -
  let ?f = "\<lambda>(k, t). handle (t :: 'v task)"
  let ?x = "assigned_worker t (workers s ! w)"
  let ?t = "t\<lparr>worker := Some w\<rparr>"
  let ?al = "AList.update (taskId t) ?t (activeWorkers s)"
  let ?s = "s\<lparr>promises := promises s @ [calls_at_assignment (data t)],
            workers := (workers s)[w := ?x], activeWorkers := ?al\<rparr>"
  note w = availableWorker_SomeD [OF assms(2)]
  have q0: "taskQueue s = []"
    using assms(1,2) by (auto simp: pool_inv_def inv_waiting_def)
  from assms(1) have d: "distinct (map ?f (activeWorkers s))"
    and a: "\<forall>(k, t) \<in> set (activeWorkers s).
        handle t < length (promises s) \<and> promises s ! handle t = calls_at_assignment (data t)"
    by (simp_all add: pool_inv_def inv_handles_def held_def)
  have fa: "handle t \<notin> ?f ` set (activeWorkers s)" using a assms(3) by auto
  have sub: "set ?al \<subseteq> insert (taskId t, ?t) (set (activeWorkers s))"
    by (rule set_update_subset)
  have nf: "\<not> falsy (w_taskId ?x)" using assms(4) by (simp add: assigned_worker_busy)
  have 1: "inv_size ?s" using assms(1) by (simp add: pool_inv_def inv_size_def)
  have 2: "inv_count ?s"
  proof -
    have "busy_count ?s = Suc (busy_count s)"
      unfolding busy_count_def using busy_filter_update [OF w(1,2) nf] by simp
    moreover have "length ?al \<le> Suc (length (activeWorkers s))" by (rule length_update_le)
    ultimately show ?thesis using assms(1) by (simp add: pool_inv_def inv_count_def)
  qed
  have 3: "inv_keys ?s"
    using assms(1,4) sub by (auto simp: pool_inv_def inv_keys_def distinct_update)
  have 4: "inv_handles ?s"
  proof -
    have h: "held ?s = map ?f ?al" by (simp add: held_def q0)
    have dist: "distinct (held ?s)" unfolding h using d fa by (intro distinct_map_update) auto
    have "handle u < length (promises ?s) \<and> promises ?s ! handle u = calls_at_assignment (data u)"
      if "(k, u) \<in> set ?al" for k u
    proof -
      from that sub have "(k, u) = (taskId t, ?t) \<or> (k, u) \<in> set (activeWorkers s)" by blast
      then show ?thesis
      proof
        assume "(k, u) = (taskId t, ?t)"
        then show ?thesis using assms(3) by simp
      next
        assume "(k, u) \<in> set (activeWorkers s)"
        with a have "handle u < length (promises s) \<and> promises s ! handle u = calls_at_assignment (data u)"
          by blast
        then show ?thesis by (simp add: nth_append)
      qed
    qed
    then have "\<forall>(k, u) \<in> set (activeWorkers ?s).
        handle u < length (promises ?s) \<and> promises ?s ! handle u = calls_at_assignment (data u)"
      by auto
    with dist show ?thesis by (simp add: inv_handles_def q0)
  qed
  have 5: "inv_once ?s"
    using assms(1) calls_at_assignment_once [of "data t"] by (auto simp: pool_inv_def inv_once_def)
  have 6: "inv_posted ?s"
  proof -
    have p: "posted (workers s ! w) = []" using assms(1) w(1,2) by (auto simp: pool_inv_def inv_posted_def)
    have x: "length (posted ?x) \<le> 1 \<and> (falsy (w_taskId ?x) \<longrightarrow> posted ?x = [])"
      using p nf by (simp add: assigned_worker_def split: payload.splits)
    have "length (posted v) \<le> 1 \<and> (falsy (w_taskId v) \<longrightarrow> posted v = [])"
      if "v \<in> set ((workers s)[w := ?x])" for v
    proof -
      from that set_update_subset_insert [of "workers s" w ?x]
      have "v = ?x \<or> v \<in> set (workers s)" by auto
      then show ?thesis using x assms(1) by (auto simp: pool_inv_def inv_posted_def)
    qed
    then show ?thesis by (simp add: inv_posted_def)
  qed
  have 7: "inv_waiting ?s" by (simp add: inv_waiting_def q0)
  have 8: "\<not> exited ?s" using assms(1) by (simp add: pool_inv_def)
  from 1 2 3 4 5 6 7 8 show ?thesis by (simp add: pool_inv_def)
qed

lemma execute_inv:
  assumes "pool_inv s"
  shows "pool_inv (snd (execute x d s))"
proof (cases "availableWorker s")
  case None
  show ?thesis
    using enqueue_inv [OF assms None, of
        "\<lparr>taskId = ''task-'' @ x, data = d, handle = length (promises s), worker = None\<rparr>"]
    by (simp add: execute_eq None)
next
  case (Some w)
  show ?thesis
    using assign_new_inv [OF assms Some, of
        "\<lparr>taskId = ''task-'' @ x, data = d, handle = length (promises s), worker = None\<rparr>"]
    by (simp add: execute_eq Some)
qed

lemma complete_inv:
  assumes "pool_inv s" "map_of (activeWorkers s) k = Some t"
  shows "pool_inv ((settle (handle t) x s)\<lparr>activeWorkers := AList.delete k (activeWorkers s)\<rparr>)"
proof -
  let ?f = "\<lambda>(k, t). handle (t :: 'v task)"
  let ?s = "(settle (handle t) x s)\<lparr>activeWorkers := AList.delete k (activeWorkers s)\<rparr>"
  let ?h = "handle t"
  have mem: "(k, t) \<in> set (activeWorkers s)" using assms(2) by (rule map_of_SomeD)
  from assms(1) have d: "distinct (map handle (taskQueue s) @ map ?f (activeWorkers s))"
    and q: "\<forall>t \<in> set (taskQueue s). handle t < length (promises s) \<and> promises s ! handle t = []"
    and a: "\<forall>(k, t) \<in> set (activeWorkers s).
        handle t < length (promises s) \<and> promises s ! handle t = calls_at_assignment (data t)"
    by (simp_all add: pool_inv_def inv_handles_def held_def)
  have sub: "set (AList.delete k (activeWorkers s)) \<subseteq> set (activeWorkers s)"
    by (rule set_delete_subset)
  have hq: "?h \<notin> handle ` set (taskQueue s)"
  proof
    assume "?h \<in> handle ` set (taskQueue s)"
    moreover have "?h \<in> ?f ` set (activeWorkers s)" using mem by force
    moreover have "handle ` set (taskQueue s) \<inter> ?f ` set (activeWorkers s) = {}"
      using d by simp
    ultimately show False by blast
  qed
  have hd: "handle u \<noteq> ?h" if "(k', u) \<in> set (AList.delete k (activeWorkers s))" for k' u
  proof
    assume e: "handle u = ?h"
    from that have k': "k' \<noteq> k" by (auto simp: AList.delete_eq)
    have "inj_on ?f (set (activeWorkers s))" using d by (simp add: distinct_map)
    moreover have "(k', u) \<in> set (activeWorkers s)" using that sub by blast
    moreover have "?f (k', u) = ?f (k, t)" using e by simp
    ultimately have "(k', u) = (k, t)" using mem by (meson inj_onD)
    with k' show False by simp
  qed
  have hl: "?h < length (promises s)" "promises s ! ?h = calls_at_assignment (data t)"
    using a mem by force+
  have prom: "promises ?s = (promises s)[?h := calls_at_assignment (data t) @ [x]]"
    using hl by (simp add: settle_def)
  have 1: "inv_size ?s" using assms(1) by (simp add: pool_inv_def inv_size_def)
  have 2: "inv_count ?s"
  proof -
    have "length (AList.delete k (activeWorkers s)) \<le> length (activeWorkers s)"
      by (rule length_delete_le)
    then show ?thesis using assms(1)
      by (simp add: pool_inv_def inv_count_def busy_count_def)
  qed
  have 3: "inv_keys ?s"
    using assms(1) sub by (auto simp: pool_inv_def inv_keys_def distinct_delete)
  have 4: "inv_handles ?s"
  proof -
    have h: "held ?s = map handle (taskQueue s) @ map ?f (AList.delete k (activeWorkers s))"
      by (simp add: held_def)
    have d1: "distinct (map ?f (AList.delete k (activeWorkers s)))"
      using d by (simp add: distinct_map_delete)
    have d2: "set (map handle (taskQueue s)) \<inter> set (map ?f (AList.delete k (activeWorkers s))) = {}"
    proof -
      have "set (map handle (taskQueue s)) \<inter> set (map ?f (activeWorkers s)) = {}" using d by simp
      moreover have "set (map ?f (AList.delete k (activeWorkers s))) \<subseteq> set (map ?f (activeWorkers s))"
        using sub by (simp only: set_map) blast
      ultimately show ?thesis by blast
    qed
    have dist: "distinct (held ?s)" using d d1 d2 unfolding h by simp
    have q': "\<forall>u \<in> set (taskQueue ?s). handle u < length (promises ?s) \<and> promises ?s ! handle u = []"
    proof
      fix u assume u: "u \<in> set (taskQueue ?s)"
      then have "handle u \<in> handle ` set (taskQueue s)" by simp
      then have "handle u \<noteq> ?h" using hq by metis
      moreover have "handle u < length (promises s) \<and> promises s ! handle u = []" using q u by simp
      ultimately show "handle u < length (promises ?s) \<and> promises ?s ! handle u = []"
        unfolding prom by simp
    qed
    have "handle u < length (promises ?s) \<and> promises ?s ! handle u = calls_at_assignment (data u)"
      if "(k', u) \<in> set (AList.delete k (activeWorkers s))" for k' u
    proof -
      have "handle u \<noteq> ?h" using that by (rule hd)
      moreover have "handle u < length (promises s) \<and> promises s ! handle u = calls_at_assignment (data u)"
        using a that sub by blast
      ultimately show ?thesis unfolding prom by simp
    qed
    then have "\<forall>(k', u) \<in> set (activeWorkers ?s).
        handle u < length (promises ?s) \<and> promises ?s ! handle u = calls_at_assignment (data u)"
      by auto
    with dist q' show ?thesis by (simp add: inv_handles_def)
  qed
  have 5: "inv_once ?s"
  proof -
    let ?p = "calls_at_assignment (data t) @ [x]"
    have "set ((promises s)[?h := ?p]) \<subseteq> insert ?p (set (promises s))"
      by (rule set_update_subset_insert)
    moreover have "length ?p \<le> 1 \<or> (\<exists>y. ?p = [Rejected_with DataCloneError, y])"
      by (simp add: calls_at_assignment_def split: payload.splits)
    ultimately show ?thesis using assms(1) unfolding inv_once_def prom pool_inv_def by blast
  qed
  have 6: "inv_posted ?s" using assms(1) by (simp add: pool_inv_def inv_posted_def)
  have 7: "inv_waiting ?s" using assms(1) by (simp add: pool_inv_def inv_waiting_def)
  have 8: "\<not> exited ?s" using assms(1) by (simp add: pool_inv_def)
  from 1 2 3 4 5 6 7 8 show ?thesis by (simp add: pool_inv_def)
qed

lemma complete_drain:
  assumes "pool_inv s" "map_of (activeWorkers s) k = Some t"
  shows "processQueue ((settle (handle t) x s)\<lparr>activeWorkers := AList.delete k (activeWorkers s)\<rparr>)
     = (None, (settle (handle t) x s)\<lparr>activeWorkers := AList.delete k (activeWorkers s)\<rparr>)"
  using complete_inv [OF assms, of x] by (simp add: pool_inv_def processQueue_waiting)

lemma console_inv: "pool_inv s \<Longrightarrow> pool_inv (s\<lparr>console := c\<rparr>)"
  by (simp add: pool_inv_def inv_size_def inv_count_def busy_count_def inv_keys_def
      inv_handles_def held_def inv_once_def inv_posted_def inv_waiting_def)

subsection \<open>processQueue, one task at a time\<close>

lemma processQueue_step:
  assumes "taskQueue s = t # rest" "availableWorker s = Some w"
  shows "processQueue s =
     (case data t of
        Uncloneable v \<Rightarrow> (Some DataCloneError, snd (assignTask w t (s\<lparr>taskQueue := rest\<rparr>)))
      | Cloneable v \<Rightarrow> processQueue (snd (assignTask w t (s\<lparr>taskQueue := rest\<rparr>))))"
  using assms by (simp add: processQueue.simps [of s] assignTask_eq split: payload.splits)

lemma processQueue_induct [consumes 0, case_names stop assign]:
  assumes stop: "\<And>s. taskQueue s = [] \<or> availableWorker s = None \<Longrightarrow> P s"
    and assign: "\<And>s t rest w.
      taskQueue s = t # rest \<Longrightarrow> availableWorker s = Some w \<Longrightarrow>
      (\<And>v. data t = Cloneable v \<Longrightarrow> P (snd (assignTask w t (s\<lparr>taskQueue := rest\<rparr>)))) \<Longrightarrow> P s"
  shows "P s"
proof (induction s rule: processQueue.induct)
  case (1 s)
  show ?case
  proof (cases "taskQueue s")
    case Nil
    then show ?thesis by (simp add: stop)
  next
    case (Cons t rest)
    show ?thesis
    proof (cases "availableWorker s")
      case None
      then show ?thesis by (simp add: stop)
    next
      case (Some w)
      show ?thesis
      proof (rule assign [OF Cons Some])
        fix v assume d: "data t = Cloneable v"
        have "assignTask w t (s\<lparr>taskQueue := rest\<rparr>) = (None, snd (assignTask w t (s\<lparr>taskQueue := rest\<rparr>)))"
          by (simp add: assignTask_eq d)
        from "1.IH" [OF Cons Some this [symmetric] refl]
        show "P (snd (assignTask w t (s\<lparr>taskQueue := rest\<rparr>)))" .
      qed
    qed
  qed
qed

lemma processQueue_stop:
  "taskQueue s = [] \<or> availableWorker s = None \<Longrightarrow> processQueue s = (None, s)"
  by (auto simp: processQueue_empty processQueue_saturated)

subsection \<open>What processQueue leaves alone\<close>

lemma processQueue_frame:
  "poolSize (snd (processQueue s)) = poolSize s \<and>
   promises (snd (processQueue s)) = promises s \<and>
   console (snd (processQueue s)) = console s \<and>
   exited (snd (processQueue s)) = exited s \<and>
   length (workers (snd (processQueue s))) = length (workers s)"
proof (induction s rule: processQueue_induct)
  case (stop s)
  then show ?case by (simp add: processQueue_stop)
next
  case (assign s t rest w)
  show ?case
  proof (cases "data t")
    case (Cloneable v)
    with assign.IH [OF Cloneable] show ?thesis
      by (simp add: processQueue_step [OF assign.hyps] assignTask_eq)
  next
    case (Uncloneable v)
    then show ?thesis by (simp add: processQueue_step [OF assign.hyps] assignTask_eq)
  qed
qed

lemma processQueue_drop: "\<exists>n. taskQueue (snd (processQueue s)) = drop n (taskQueue s)"
proof (induction s rule: processQueue_induct)
  case (stop s)
  then have "taskQueue (snd (processQueue s)) = drop 0 (taskQueue s)"
    by (simp add: processQueue_stop)
  then show ?case by blast
next
  case (assign s t rest w)
  show ?case
  proof (cases "data t")
    case (Cloneable v)
    from assign.IH [OF Cloneable] obtain n
      where "taskQueue (snd (processQueue (snd (assignTask w t (s\<lparr>taskQueue := rest\<rparr>))))) = drop n rest"
      by (auto simp: assignTask_eq)
    then have "taskQueue (snd (processQueue s)) = drop (Suc n) (taskQueue s)"
      using Cloneable assign.hyps by (simp add: processQueue_step [OF assign.hyps])
    then show ?thesis by blast
  next
    case (Uncloneable v)
    then have "taskQueue (snd (processQueue s)) = drop (Suc 0) (taskQueue s)"
      using assign.hyps by (simp add: processQueue_step [OF assign.hyps] assignTask_eq)
    then show ?thesis by blast
  qed
qed

lemma busy_stable_assign:
  assumes "w < length (workers s)" "\<not> falsy (w_taskId (workers s ! w))"
    and "falsy (w_taskId (workers s ! w'))"
  shows "workers (snd (assignTask w' t s)) ! w = workers s ! w"
proof -
  have "w \<noteq> w'" using assms by auto
  then show ?thesis by (simp add: assignTask_eq)
qed

lemma busy_stable_processQueue:
  "w < length (workers s) \<Longrightarrow> \<not> falsy (w_taskId (workers s ! w)) \<Longrightarrow>
   workers (snd (processQueue s)) ! w = workers s ! w"
proof (induction s rule: processQueue_induct)
  case (stop s)
  then show ?case by (simp add: processQueue_stop)
next
  case (assign s t rest v)
  let ?s = "snd (assignTask v t (s\<lparr>taskQueue := rest\<rparr>))"
  have f: "falsy (w_taskId (workers (s\<lparr>taskQueue := rest\<rparr>) ! v))"
    using availableWorker_SomeD(2) [OF assign.hyps(2)] by simp
  have eq: "workers ?s ! w = workers s ! w"
    using busy_stable_assign [of w "s\<lparr>taskQueue := rest\<rparr>" v t] assign.prems f by simp
  have len: "length (workers ?s) = length (workers s)" by (simp add: assignTask_eq)
  show ?case
  proof (cases "data t")
    case (Cloneable x)
    have "workers (snd (processQueue ?s)) ! w = workers ?s ! w"
      using assign.IH [OF Cloneable] assign.prems eq len by simp
    then show ?thesis using eq Cloneable by (simp add: processQueue_step [OF assign.hyps])
  next
    case (Uncloneable x)
    then show ?thesis using eq by (simp add: processQueue_step [OF assign.hyps])
  qed
qed

subsection \<open>The shape of the handlers\<close>

lemma on_message_cases:
  obtains "on_message k r s = (None, s)"
  | tid t where "k = Some tid" "map_of (activeWorkers s) tid = Some t"
      "on_message k r s =
         processQueue ((settle (handle t) (Resolved r) s)
                         \<lparr>activeWorkers := AList.delete tid (activeWorkers s)\<rparr>)"
proof (cases k)
  case None
  then have "on_message k r s = (None, s)" by (simp add: on_message_def)
  then show ?thesis by (rule that(1))
next
  case (Some tid)
  show ?thesis
  proof (cases "map_of (activeWorkers s) tid")
    case None
    then have "on_message k r s = (None, s)" using Some by (simp add: on_message_def)
    then show ?thesis by (rule that(1))
  next
    case (Some t)
    show ?thesis
      by (rule that(2) [OF \<open>k = Some tid\<close> Some]) (simp add: on_message_def \<open>k = Some tid\<close> Some)
  qed
qed

lemma on_error_cases:
  obtains "on_error i err s = (None, s\<lparr>console := console s @ [Worker_error i err]\<rparr>)"
  | tid t0 t where
      "List.find (\<lambda>(k, t). worker t = Some i) (activeWorkers s) = Some (tid, t0)" "tid \<noteq> []"
      "map_of (activeWorkers s) tid = Some t"
      "on_error i err s =
         processQueue ((settle (handle t) (Rejected err) (s\<lparr>console := console s @ [Worker_error i err]\<rparr>))
                         \<lparr>activeWorkers := AList.delete tid (activeWorkers s)\<rparr>)"
proof (cases "List.find (\<lambda>(k, t). worker t = Some i) (activeWorkers s)")
  case None
  then have "on_error i err s = (None, s\<lparr>console := console s @ [Worker_error i err]\<rparr>)"
    by (simp add: on_error_def Let_def)
  then show ?thesis by (rule that(1))
next
  case (Some p)
  obtain tid t0 where p: "p = (tid, t0)" by (cases p)
  show ?thesis
  proof (cases "tid = [] \<or> map_of (activeWorkers s) tid = None")
    case True
    then have "on_error i err s = (None, s\<lparr>console := console s @ [Worker_error i err]\<rparr>)"
      using Some p by (auto simp: on_error_def Let_def)
    then show ?thesis by (rule that(1))
  next
    case False
    then obtain t where t: "map_of (activeWorkers s) tid = Some t" and ne: "tid \<noteq> []" by auto
    show ?thesis
      by (rule that(2) [OF _ ne t]) (simp_all add: on_error_def Let_def Some p ne t)
  qed
qed

text \<open>
  Every transition either keeps the queue, the workers and the Promises, or is a submission,
  or drains the queue after a settlement, or terminates the workers; the frame lemmas below
  go through these four shapes.
\<close>

lemma uncaught_frame:
  "workers (uncaught r) = workers (snd r) \<and> taskQueue (uncaught r) = taskQueue (snd r) \<and>
   activeWorkers (uncaught r) = activeWorkers (snd r) \<and> promises (uncaught r) = promises (snd r) \<and>
   poolSize (uncaught r) = poolSize (snd r)"
  by (cases r) (simp add: uncaught_def split: option.splits)

lemma settle_extends: "\<exists>ext. promises (settle h' x s) ! h = promises s ! h @ ext"
proof (cases "h' < length (promises s)")
  case True
  show ?thesis
  proof (cases "h = h'")
    case True
    with \<open>h' < length (promises s)\<close> have "promises (settle h' x s) ! h = promises s ! h @ [x]"
      by (simp add: settle_def)
    then show ?thesis by blast
  next
    case False
    then have "promises (settle h' x s) ! h = promises s ! h @ []" by (simp add: settle_def)
    then show ?thesis by blast
  qed
next
  case False
  then have "promises (settle h' x s) ! h = promises s ! h @ []"
    by (simp add: settle_def list_update_beyond)
  then show ?thesis by blast
qed

lemma handle_event_cases:
  obtains (same) "taskQueue (handle_event e s) = taskQueue s" "workers (handle_event e s) = workers s"
      "promises (handle_event e s) = promises s" "poolSize (handle_event e s) = poolSize s"
      "exited (handle_event e s) = exited s" "\<And>h. submitted h [e] = []"
  | (submit) x d where "e = Execute x d" "handle_event e s = snd (execute x d s)"
  | (drain) s0 where "handle_event e s = uncaught (processQueue s0)"
      "taskQueue s0 = taskQueue s" "workers s0 = workers s"
      "length (promises s0) = length (promises s)" "poolSize s0 = poolSize s"
      "\<forall>h. \<exists>ext. promises s0 ! h = promises s ! h @ ext"
      "exited s0 = exited s" "\<And>h. submitted h [e] = []"
  | (stop) "e = Terminate" "handle_event e s = terminate s"
proof (cases e)
  case (Execute x d)
  then show ?thesis by (intro submit [of x d]) simp_all
next
  case (Message i k r)
  show ?thesis
  proof (cases "i < length (workers s)")
    case False
    then show ?thesis by (intro same) (simp_all add: Message)
  next
    case True
    show ?thesis
    proof (rule on_message_cases [of k r s])
      assume "on_message k r s = (None, s)"
      then show ?thesis by (intro same) (simp_all add: Message True uncaught_def)
    next
      fix tid t
      let ?s0 = "(settle (handle t) (Resolved r) s)\<lparr>activeWorkers := AList.delete tid (activeWorkers s)\<rparr>"
      assume eq: "on_message k r s = processQueue ?s0"
      have "\<forall>h. \<exists>ext. promises ?s0 ! h = promises s ! h @ ext"
        using settle_extends [where s = s] by simp
      then show ?thesis by (intro drain [of ?s0]) (simp_all add: Message True eq)
    qed
  qed
next
  case (Error i err)
  show ?thesis
  proof (cases "i < length (workers s)")
    case False
    then show ?thesis by (intro same) (simp_all add: Error)
  next
    case True
    show ?thesis
    proof (rule on_error_cases [of i err s])
      assume "on_error i err s = (None, s\<lparr>console := console s @ [Worker_error i err]\<rparr>)"
      then show ?thesis by (intro same) (simp_all add: Error True uncaught_def)
    next
      fix tid t
      let ?s0 = "(settle (handle t) (Rejected err) (s\<lparr>console := console s @ [Worker_error i err]\<rparr>))
                   \<lparr>activeWorkers := AList.delete tid (activeWorkers s)\<rparr>"
      assume eq: "on_error i err s = processQueue ?s0"
      have "\<forall>h. \<exists>ext. promises ?s0 ! h = promises s ! h @ ext"
        using settle_extends [where s = "s\<lparr>console := console s @ [Worker_error i err]\<rparr>"]
        by simp
      then show ?thesis by (intro drain [of ?s0]) (simp_all add: Error True eq)
    qed
  qed
next
  case (Exit i c)
  then show ?thesis by (intro same) (simp_all add: on_exit_def)
next
  case Terminate
  then show ?thesis by (intro stop) simp_all
qed

subsection \<open>Every reachable state satisfies the invariant\<close>

lemma on_message_inv:
  assumes "pool_inv s"
  shows "fst (on_message k r s) = None \<and> pool_inv (snd (on_message k r s))"
proof (rule on_message_cases [of k r s])
  assume "on_message k r s = (None, s)"
  then show ?thesis using assms by simp
next
  fix tid t
  assume m: "map_of (activeWorkers s) tid = Some t"
    and eq: "on_message k r s =
         processQueue ((settle (handle t) (Resolved r) s)
                         \<lparr>activeWorkers := AList.delete tid (activeWorkers s)\<rparr>)"
  show ?thesis
    using complete_inv [OF assms m, of "Resolved r"] complete_drain [OF assms m, of "Resolved r"]
    by (simp add: eq)
qed

lemma on_error_inv:
  assumes "pool_inv s"
  shows "fst (on_error i err s) = None \<and> pool_inv (snd (on_error i err s))"
proof (rule on_error_cases [of i err s])
  assume "on_error i err s = (None, s\<lparr>console := console s @ [Worker_error i err]\<rparr>)"
  then show ?thesis using assms by (simp add: console_inv)
next
  fix tid t
  let ?s1 = "s\<lparr>console := console s @ [Worker_error i err]\<rparr>"
  assume m: "map_of (activeWorkers s) tid = Some t"
    and eq: "on_error i err s =
         processQueue ((settle (handle t) (Rejected err) ?s1)
                         \<lparr>activeWorkers := AList.delete tid (activeWorkers s)\<rparr>)"
  have i1: "pool_inv ?s1" using assms by (rule console_inv)
  have m1: "map_of (activeWorkers ?s1) tid = Some t" using m by simp
  show ?thesis
    using complete_inv [OF i1 m1, of "Rejected err"] complete_drain [OF i1 m1, of "Rejected err"]
    by (simp add: eq)
qed

lemma uncaught_None: "fst r = None \<Longrightarrow> uncaught r = snd r"
  by (cases r) (simp add: uncaught_def)

lemma on_exit_inv: "pool_inv s \<Longrightarrow> pool_inv (on_exit i c s)"
  by (simp add: on_exit_def console_inv)

lemma terminate_inv: "pool_inv s \<Longrightarrow> pool_inv (terminate s)"
proof -
  assume i: "pool_inv s"
  have "availableWorker (terminate s) = availableWorker s"
    by (rule availableWorker_cong) (simp add: terminate_def comp_def)
  then have "inv_waiting (terminate s)"
    using i by (simp add: pool_inv_def inv_waiting_def) (simp add: terminate_def)
  then show ?thesis using i
    by (simp add: pool_inv_def inv_size_def inv_count_def busy_count_def inv_keys_def
      inv_handles_def held_def inv_once_def inv_posted_def terminate_def filter_map comp_def)
qed

lemma handle_event_inv: "pool_inv s \<Longrightarrow> pool_inv (handle_event e s)"
  by (cases e)
     (simp_all add: execute_inv on_message_inv on_error_inv on_exit_inv terminate_inv uncaught_None)

lemma step_inv: "pool_inv s \<Longrightarrow> pool_inv (step e s)"
  by (simp add: step_def handle_event_inv)

lemma step_live: "pool_inv s \<Longrightarrow> step e s = handle_event e s"
  by (simp add: step_def pool_inv_def)

lemma run_inv: "pool_inv s \<Longrightarrow> pool_inv (run evs s)"
  by (induction evs arbitrary: s) (simp_all add: step_inv)

lemma new_inv: "pool_inv (new_WorkerPool n throws)"
  by (auto simp: new_WorkerPool_def initializeWorkers_def new_worker_def pool_inv_def inv_size_def
      inv_count_def busy_count_def inv_keys_def inv_handles_def held_def inv_once_def
      inv_posted_def inv_waiting_def split: option.splits)

lemma reachable_inv: "pool_inv (run evs (new_WorkerPool n throws))"
  by (rule run_inv [OF new_inv])

subsection \<open>Frame of a step\<close>

lemma drain_frame:
  "poolSize (uncaught (processQueue s0)) = poolSize s0 \<and>
   length (workers (uncaught (processQueue s0))) = length (workers s0) \<and>
   promises (uncaught (processQueue s0)) = promises s0"
  by (simp add: uncaught_frame processQueue_frame)

lemma step_frame:
  "poolSize (step e s) = poolSize s \<and> length (workers (step e s)) = length (workers s)"
proof (cases "exited s")
  case True
  then show ?thesis by (simp add: step_def)
next
  case False
  have "poolSize (handle_event e s) = poolSize s \<and>
        length (workers (handle_event e s)) = length (workers s)"
  proof (cases rule: handle_event_cases [where e = e and s = s])
    case same
    then show ?thesis by simp
  next
    case (submit x d)
    then show ?thesis by (simp add: execute_eq split: option.splits)
  next
    case (drain s0)
    then show ?thesis by (simp add: drain_frame)
  next
    case stop
    then show ?thesis by (simp add: terminate_def)
  qed
  then show ?thesis using False by (simp add: step_def)
qed

lemma run_frame:
  "poolSize (run evs s) = poolSize s \<and> length (workers (run evs s)) = length (workers s)"
  by (induction evs arbitrary: s) (simp_all add: step_frame)

subsection \<open>A marked worker stays marked\<close>

lemma busy_stable_step:
  assumes "w < length (workers s)" "\<not> falsy (w_taskId (workers s ! w))"
  shows "w_taskId (workers (step e s) ! w) = w_taskId (workers s ! w) \<and>
         posted (workers (step e s) ! w) = posted (workers s ! w)"
proof (cases "exited s")
  case True
  then show ?thesis by (simp add: step_def)
next
  case False
  have "w_taskId (workers (handle_event e s) ! w) = w_taskId (workers s ! w) \<and>
         posted (workers (handle_event e s) ! w) = posted (workers s ! w)"
  proof (cases rule: handle_event_cases [where e = e and s = s])
    case same
    then show ?thesis by simp
  next
    case (submit x d)
    show ?thesis
    proof (cases "availableWorker s")
      case None
      then show ?thesis by (simp add: submit execute_eq)
    next
      case (Some v)
      have "v \<noteq> w" using availableWorker_SomeD(2) [OF Some] assms(2) by auto
      then show ?thesis by (simp add: submit execute_eq Some)
    qed
  next
    case (drain s0)
    have "workers (snd (processQueue s0)) ! w = workers s0 ! w"
      using assms drain(3) by (intro busy_stable_processQueue) simp_all
    then show ?thesis using drain by (simp add: uncaught_frame)
  next
    case stop
    then show ?thesis using assms by (simp add: terminate_def)
  qed
  then show ?thesis using False by (simp add: step_def)
qed

lemma busy_stable_run:
  "w < length (workers s) \<Longrightarrow> \<not> falsy (w_taskId (workers s ! w)) \<Longrightarrow>
   w_taskId (workers (run evs s) ! w) = w_taskId (workers s ! w) \<and>
   posted (workers (run evs s) ! w) = posted (workers s ! w)"
proof (induction evs arbitrary: s)
  case Nil
  then show ?case by simp
next
  case (Cons e evs)
  have 1: "w < length (workers (step e s))" using Cons.prems by (simp add: step_frame)
  have 2: "w_taskId (workers (step e s) ! w) = w_taskId (workers s ! w) \<and>
         posted (workers (step e s) ! w) = posted (workers s ! w)"
    using Cons.prems by (rule busy_stable_step)
  then have 3: "\<not> falsy (w_taskId (workers (step e s) ! w))" using Cons.prems by simp
  show ?case using Cons.IH [OF 1 3] 2 by simp
qed

subsection \<open>The calls made on a Promise only grow\<close>




subsection \<open>A pool without an available worker\<close>

lemma saturated_step:
  assumes "availableWorker s = None" "\<not> exited s"
  shows "availableWorker (step e s) = None \<and> \<not> exited (step e s) \<and>
         taskQueue (step e s) = taskQueue s @ submitted (length (promises s)) [e] \<and>
         length (promises (step e s)) = length (promises s) + length (submitted 0 [e])"
proof -
  have "availableWorker (handle_event e s) = None \<and> \<not> exited (handle_event e s) \<and>
         taskQueue (handle_event e s) = taskQueue s @ submitted (length (promises s)) [e] \<and>
         length (promises (handle_event e s)) = length (promises s) + length (submitted 0 [e])"
  proof (cases rule: handle_event_cases [where e = e and s = s])
    case same
    have "availableWorker (handle_event e s) = availableWorker s"
      using same(2) by (simp add: availableWorker_def)
    then show ?thesis using same assms by simp
  next
    case (submit x d)
    then show ?thesis using assms by (simp add: execute_eq)
  next
    case (drain s0)
    have "availableWorker s0 = None" using drain(3) assms(1) by (simp add: availableWorker_def)
    then have "handle_event e s = s0" using drain(1) by (simp add: processQueue_saturated uncaught_def)
    then show ?thesis using drain assms \<open>availableWorker s0 = None\<close> by simp
  next
    case stop
    have "availableWorker (terminate s) = availableWorker s"
      by (rule availableWorker_cong) (simp add: terminate_def comp_def)
    then show ?thesis using stop assms by (simp add: terminate_def)
  qed
  then show ?thesis using assms(2) by (simp add: step_def)
qed

lemma saturated_run:
  "availableWorker s = None \<Longrightarrow> \<not> exited s \<Longrightarrow>
   taskQueue (run evs s) = taskQueue s @ submitted (length (promises s)) evs"
proof (induction evs arbitrary: s)
  case Nil
  then show ?case by simp
next
  case (Cons e evs)
  note st = saturated_step [OF Cons.prems, of e]
  have "taskQueue (run evs (step e s)) =
          taskQueue (step e s) @ submitted (length (promises (step e s))) evs"
    using st by (intro Cons.IH) simp_all
  then show ?case using st by (cases e) simp_all
qed

subsection \<open>The queue loses tasks at its head only\<close>

lemma queue_kept:
  assumes "taskQueue s' = taskQueue s @ new" "\<forall>t \<in> set new. length (promises s) \<le> handle t"
    and "length (promises s) \<le> length (promises s')"
  shows "\<exists>n new. taskQueue s' = drop n (taskQueue s) @ new \<and>
     (\<forall>t \<in> set new. length (promises s) \<le> handle t) \<and>
     length (promises s) \<le> length (promises s')"
proof -
  have "taskQueue s' = drop 0 (taskQueue s) @ new" using assms(1) by simp
  with assms(2,3) show ?thesis by blast
qed

lemma queue_drained:
  assumes "taskQueue s0 = taskQueue s" "length (promises s0) = length (promises s)"
  shows "\<exists>n new. taskQueue (uncaught (processQueue s0)) = drop n (taskQueue s) @ new \<and>
     (\<forall>t \<in> set new. length (promises s) \<le> handle t) \<and>
     length (promises s) \<le> length (promises (uncaught (processQueue s0)))"
proof -
  obtain n where "taskQueue (snd (processQueue s0)) = drop n (taskQueue s0)"
    using processQueue_drop by blast
  then have "taskQueue (uncaught (processQueue s0)) = drop n (taskQueue s) @ [] \<and>
        (\<forall>t \<in> set []. length (promises s) \<le> handle (t :: 'v task)) \<and>
        length (promises s) \<le> length (promises (uncaught (processQueue s0)))"
    using assms by (simp add: uncaught_frame processQueue_frame)
  then show ?thesis by blast
qed

lemma queue_step:
  "\<exists>n new. taskQueue (step e s) = drop n (taskQueue s) @ new \<and>
     (\<forall>t \<in> set new. length (promises s) \<le> handle t) \<and>
     length (promises s) \<le> length (promises (step e s))"
proof (cases "exited s")
  case True
  then show ?thesis by (intro queue_kept [where new = "[]"]) (simp_all add: step_def)
next
  case False
  have "\<exists>n new. taskQueue (handle_event e s) = drop n (taskQueue s) @ new \<and>
     (\<forall>t \<in> set new. length (promises s) \<le> handle t) \<and>
     length (promises s) \<le> length (promises (handle_event e s))"
  proof (cases rule: handle_event_cases [where e = e and s = s])
    case same
    then show ?thesis by (intro queue_kept [where new = "[]"]) simp_all
  next
    case (submit x d)
    let ?t = "\<lparr>taskId = ''task-'' @ x, data = d, handle = length (promises s), worker = None\<rparr>"
    show ?thesis
    proof (cases "availableWorker s")
      case None
      then show ?thesis
        by (intro queue_kept [where new = "[?t]"]) (simp_all add: submit execute_eq)
    next
      case (Some w)
      then show ?thesis
        by (intro queue_kept [where new = "[]"]) (simp_all add: submit execute_eq)
    qed
  next
    case (drain s0)
    then show ?thesis using queue_drained [of s0 s] by simp
  next
    case stop
    then show ?thesis by (intro queue_kept [where new = "[]"]) (simp_all add: terminate_def)
  qed
  then show ?thesis using False by (simp add: step_def)
qed

lemma queue_run:
  "\<exists>n new. taskQueue (run evs s) = drop n (taskQueue s) @ new \<and>
     (\<forall>t \<in> set new. length (promises s) \<le> handle t) \<and>
     length (promises s) \<le> length (promises (run evs s))"
proof (induction evs arbitrary: s)
  case Nil
  have "taskQueue (run [] s) = drop 0 (taskQueue s) @ [] \<and>
     (\<forall>t \<in> set []. length (promises s) \<le> handle (t :: 'v task)) \<and>
     length (promises s) \<le> length (promises (run [] s))" by simp
  then show ?case by blast
next
  case (Cons e evs)
  obtain n new where 1: "taskQueue (step e s) = drop n (taskQueue s) @ new"
      "\<forall>t \<in> set new. length (promises s) \<le> handle t"
      "length (promises s) \<le> length (promises (step e s))"
    using queue_step [of e s] by blast
  obtain m new' where 2: "taskQueue (run evs (step e s)) = drop m (taskQueue (step e s)) @ new'"
      "\<forall>t \<in> set new'. length (promises (step e s)) \<le> handle t"
      "length (promises (step e s)) \<le> length (promises (run evs (step e s)))"
    using Cons.IH [of "step e s"] by blast
  let ?new = "drop (m - length (drop n (taskQueue s))) new @ new'"
  have a: "taskQueue (run (e # evs) s) = drop (n + m) (taskQueue s) @ ?new"
    using 1(1) 2(1) by (simp add: add.commute)
  have b: "\<forall>t \<in> set ?new. length (promises s) \<le> handle t"
  proof
    fix t assume "t \<in> set ?new"
    then have "t \<in> set new \<or> t \<in> set new'" by (auto dest: in_set_dropD)
    then show "length (promises s) \<le> handle t" using 1(2,3) 2(2) by fastforce
  qed
  have c: "length (promises s) \<le> length (promises (run (e # evs) s))"
    using 1(3) 2(3) by simp
  from a b c show ?case by blast
qed

subsection \<open>Evaluating a concrete run\<close>

lemmas pool_eval =
  new_WorkerPool_def initializeWorkers_def new_worker_def execute_def availableWorker_def
  falsy_def assignTask_def postMessage_def on_message_def on_error_def on_exit_def
  terminate_def settle_def processQueue.simps step_def uncaught_def get_stats_def
  idle_count_def busy_count_def outcome_def Let_def upt_rec numeral_2_eq_2


lemma assignTask_terminate:
  "w < length (workers s) \<Longrightarrow>
   assignTask w t (terminate s) = (fst (assignTask w t s), terminate (snd (assignTask w t s)))"
  by (simp add: assignTask_eq)
     (intro pool.equality, simp_all add: terminate_def map_update assigned_worker_def,
      intro arg_cong [where f = "list_update _ w"] worker_thread.equality,
      simp_all split: payload.splits)

section \<open>The claims\<close>

subsection \<open>C1: what a completion event does\<close>

text \<open>
  Claim C1 says that a completion event settles the task's Promise, marks the worker idle and
  then assigns queued tasks, so that a completion with a non-empty queue assigns at least one
  queued task. In a pool of one worker with tasks \<open>a\<close> (assigned) and \<open>b\<close> (queued), the
  message of worker 0 for \<open>a\<close> resolves the Promise of \<open>a\<close> and empties the Map, but the
  worker keeps its mark \<^verbatim>\<open>taskId\<close>, no worker is available, worker 0 has been posted only
  the payload of \<open>a\<close>, and \<open>b\<close> is still in the queue.
\<close>

theorem completion_does_not_free_worker:
  "promises (run [Execute ''a'' (Cloneable (1::nat)), Execute ''b'' (Cloneable 2), Message 0 (Some ''task-a'') 10]
     (new_WorkerPool 1 None)) = [[Resolved 10], []] \<and>
   map w_taskId (workers (run [Execute ''a'' (Cloneable (1::nat)), Execute ''b'' (Cloneable 2), Message 0 (Some ''task-a'') 10]
     (new_WorkerPool 1 None))) = [Some ''task-a''] \<and>
   availableWorker (run [Execute ''a'' (Cloneable (1::nat)), Execute ''b'' (Cloneable 2), Message 0 (Some ''task-a'') 10]
     (new_WorkerPool 1 None)) = None \<and>
   map posted (workers (run [Execute ''a'' (Cloneable (1::nat)), Execute ''b'' (Cloneable 2), Message 0 (Some ''task-a'') 10]
     (new_WorkerPool 1 None))) = [[1]] \<and>
   activeWorkers (run [Execute ''a'' (Cloneable (1::nat)), Execute ''b'' (Cloneable 2), Message 0 (Some ''task-a'') 10]
     (new_WorkerPool 1 None)) = [] \<and>
   map data (taskQueue (run [Execute ''a'' (Cloneable (1::nat)), Execute ''b'' (Cloneable 2), Message 0 (Some ''task-a'') 10]
     (new_WorkerPool 1 None))) = [Cloneable 2]"
  by (simp add: pool_eval)

subsection \<open>C2: bounded concurrency\<close>

text \<open>
  Claim C2: for a pool of size \<open>n\<close> and every list of events, the number of entries of the
  Map of tasks in flight and the number of marked (busy) workers are at most \<open>n\<close>, also when
  the constructor created fewer than \<open>n\<close> workers.
\<close>

theorem bounded_concurrency:
  "length (activeWorkers (run evs (new_WorkerPool n throws))) \<le> n \<and>
   busy_count (run evs (new_WorkerPool n throws)) \<le> n"
proof -
  let ?s = "run evs (new_WorkerPool n throws)"
  have inv: "pool_inv ?s" by (rule reachable_inv)
  have "poolSize (new_WorkerPool n throws) = n"
    by (simp add: new_WorkerPool_def initializeWorkers_def split: option.splits)
  then have p: "poolSize ?s = n" by (simp add: run_frame)
  have "busy_count ?s \<le> length (workers ?s)" by (simp add: busy_count_def)
  also have "\<dots> \<le> n" using inv p by (simp add: pool_inv_def inv_size_def)
  finally have b: "busy_count ?s \<le> n" .
  moreover have "length (activeWorkers ?s) \<le> busy_count ?s"
    using inv by (simp add: pool_inv_def inv_count_def)
  ultimately show ?thesis by simp
qed

text \<open>Three submissions to a pool of two workers.\<close>

theorem bounded_concurrency_witness:
  "length (activeWorkers (run [Execute ''1'' (Cloneable (1::nat)), Execute ''2'' (Cloneable 2), Execute ''3'' (Cloneable 3)]
     (new_WorkerPool 2 None))) \<le> 2 \<and>
   busy_count (run [Execute ''1'' (Cloneable (1::nat)), Execute ''2'' (Cloneable 2), Execute ''3'' (Cloneable 3)]
     (new_WorkerPool 2 None)) \<le> 2"
  by (rule bounded_concurrency)

subsection \<open>C3: submission\<close>

text \<open>
  Claim C3 says that a task submitted while some worker is idle is assigned at once to the
  first idle worker, and is queued only otherwise. In a pool of one worker, task \<open>a\<close> is
  assigned to worker 0, and the error event of worker 0 rejects its Promise and empties the
  Map: no task is in flight, the statistics report 0 active, and the worker runs nothing.
  Task \<open>b\<close>, submitted in this state, is not assigned: it is appended to the queue, the
  Map stays empty and worker 0 has still been sent only the payload of \<open>a\<close>.
\<close>

theorem completed_worker_not_reused:
  "promises (run [Execute ''a'' (Cloneable (1::nat)), Error 0 7] (new_WorkerPool 1 None))
     = [[Rejected 7]] \<and>
   activeWorkers (run [Execute ''a'' (Cloneable (1::nat)), Error 0 7] (new_WorkerPool 1 None)) = [] \<and>
   st_activeWorkers (get_stats
     (run [Execute ''a'' (Cloneable (1::nat)), Error 0 7] (new_WorkerPool 1 None))) = 0 \<and>
   fst (execute ''b'' (Cloneable 2)
     (run [Execute ''a'' (Cloneable (1::nat)), Error 0 7] (new_WorkerPool 1 None))) = 1 \<and>
   map taskId (taskQueue (snd (execute ''b'' (Cloneable 2)
     (run [Execute ''a'' (Cloneable (1::nat)), Error 0 7] (new_WorkerPool 1 None))))) = [''task-b''] \<and>
   activeWorkers (snd (execute ''b'' (Cloneable 2)
     (run [Execute ''a'' (Cloneable (1::nat)), Error 0 7] (new_WorkerPool 1 None)))) = [] \<and>
   map posted (workers (snd (execute ''b'' (Cloneable 2)
     (run [Execute ''a'' (Cloneable (1::nat)), Error 0 7] (new_WorkerPool 1 None))))) = [[1]]"
  by (simp add: pool_eval)

subsection \<open>C4: four tasks on two workers\<close>

text \<open>
  Claim C4, the scenario of a pool of size 2 and four tasks submitted at once. After the
  four submissions the first two tasks are in flight on workers 0 and 1, the last two are
  queued, and the statistics report 2 active and 2 queued, with no idle worker. After the
  message of worker 0 for the first task its Promise is resolved, and the statistics report
  1 active and 2 queued: the third task is still at the head of the queue.
\<close>

theorem four_tasks_scenario:
  "get_stats (run [Execute ''1'' (Cloneable (1::nat)), Execute ''2'' (Cloneable 2), Execute ''3'' (Cloneable 3), Execute ''4'' (Cloneable 4)]
      (new_WorkerPool 2 None))
     = \<lparr>st_poolSize = 2, st_activeWorkers = 2, queuedTasks = 2, totalWorkers = 2\<rparr> \<and>
   idle_count (run [Execute ''1'' (Cloneable (1::nat)), Execute ''2'' (Cloneable 2), Execute ''3'' (Cloneable 3), Execute ''4'' (Cloneable 4)]
      (new_WorkerPool 2 None)) = 0 \<and>
   map (data \<circ> snd) (activeWorkers
     (run [Execute ''1'' (Cloneable (1::nat)), Execute ''2'' (Cloneable 2), Execute ''3'' (Cloneable 3), Execute ''4'' (Cloneable 4)]
      (new_WorkerPool 2 None))) = [Cloneable 1, Cloneable 2] \<and>
   map data (taskQueue
     (run [Execute ''1'' (Cloneable (1::nat)), Execute ''2'' (Cloneable 2), Execute ''3'' (Cloneable 3), Execute ''4'' (Cloneable 4)]
      (new_WorkerPool 2 None))) = [Cloneable 3, Cloneable 4] \<and>
   promises (run [Execute ''1'' (Cloneable (1::nat)), Execute ''2'' (Cloneable 2), Execute ''3'' (Cloneable 3), Execute ''4'' (Cloneable 4),
       Message 0 (Some ''task-1'') 10] (new_WorkerPool 2 None))
     = [[Resolved 10], [], [], []] \<and>
   get_stats (run [Execute ''1'' (Cloneable (1::nat)), Execute ''2'' (Cloneable 2), Execute ''3'' (Cloneable 3), Execute ''4'' (Cloneable 4),
       Message 0 (Some ''task-1'') 10] (new_WorkerPool 2 None))
     = \<lparr>st_poolSize = 2, st_activeWorkers = 1, queuedTasks = 2, totalWorkers = 2\<rparr> \<and>
   idle_count (run [Execute ''1'' (Cloneable (1::nat)), Execute ''2'' (Cloneable 2), Execute ''3'' (Cloneable 3), Execute ''4'' (Cloneable 4),
       Message 0 (Some ''task-1'') 10] (new_WorkerPool 2 None)) = 0 \<and>
   map data (taskQueue
     (run [Execute ''1'' (Cloneable (1::nat)), Execute ''2'' (Cloneable 2), Execute ''3'' (Cloneable 3), Execute ''4'' (Cloneable 4),
       Message 0 (Some ''task-1'') 10] (new_WorkerPool 2 None))) = [Cloneable 3, Cloneable 4]"
  by (simp add: pool_eval)

subsection \<open>C5: settling a handle\<close>




subsection \<open>C6: terminate and the queue\<close>

text \<open>
  Claim C6, as the code has it: \<open>terminate\<close> takes no timeout and waits for nothing; it
  leaves the queue, the Map and every Promise as they are, so a queued task stays queued
  with its Promise pending; and it calls \<^verbatim>\<open>terminate\<close> on every worker, changing nothing
  else of a worker.
\<close>

theorem terminate_only_stops_workers:
  "taskQueue (terminate s) = taskQueue s \<and>
   activeWorkers (terminate s) = activeWorkers s \<and>
   promises (terminate s) = promises s \<and>
   length (workers (terminate s)) = length (workers s) \<and>
   (\<forall>w \<in> set (workers (terminate s)). terminated w) \<and>
   map w_taskId (workers (terminate s)) = map w_taskId (workers s) \<and>
   map posted (workers (terminate s)) = map posted (workers s)"
  by (auto simp: terminate_def comp_def)

theorem terminate_only_stops_workers_witness:
  "taskQueue (terminate (run [Execute ''a'' (Cloneable (1::nat)), Execute ''b'' (Cloneable 2)] (new_WorkerPool 1 None)))
     = taskQueue (run [Execute ''a'' (Cloneable (1::nat)), Execute ''b'' (Cloneable 2)] (new_WorkerPool 1 None)) \<and>
   length (taskQueue (run [Execute ''a'' (Cloneable (1::nat)), Execute ''b'' (Cloneable 2)] (new_WorkerPool 1 None))) = 1 \<and>
   promises (terminate (run [Execute ''a'' (Cloneable (1::nat)), Execute ''b'' (Cloneable 2)] (new_WorkerPool 1 None)))
     = [[], []] \<and>
   map terminated (workers (run [Execute ''a'' (Cloneable (1::nat)), Execute ''b'' (Cloneable 2)] (new_WorkerPool 1 None)))
     = [False] \<and>
   map terminated (workers (terminate (run [Execute ''a'' (Cloneable (1::nat)), Execute ''b'' (Cloneable 2)] (new_WorkerPool 1 None))))
     = [True]"
  using terminate_only_stops_workers
          [of "run [Execute ''a'' (Cloneable (1::nat)), Execute ''b'' (Cloneable 2)] (new_WorkerPool 1 None)"]
  by (simp add: pool_eval)

text \<open>
  Against C6 as stated: with one task in flight and one queued, after \<open>terminate\<close> the
  queued task is still in the queue and its Promise, number 1, is pending, not rejected.
\<close>

theorem terminate_leaves_queue:
  "map taskId (taskQueue (run [Execute ''a'' (Cloneable (1::nat)), Execute ''b'' (Cloneable 2), Terminate]
     (new_WorkerPool 1 None))) = [''task-b''] \<and>
   map handle (taskQueue (run [Execute ''a'' (Cloneable (1::nat)), Execute ''b'' (Cloneable 2), Terminate]
     (new_WorkerPool 1 None))) = [1] \<and>
   promises (run [Execute ''a'' (Cloneable (1::nat)), Execute ''b'' (Cloneable 2), Terminate]
     (new_WorkerPool 1 None)) = [[], []] \<and>
   map terminated (workers (run [Execute ''a'' (Cloneable (1::nat)), Execute ''b'' (Cloneable 2), Terminate]
     (new_WorkerPool 1 None))) = [True]"
  by (simp add: pool_eval)

subsection \<open>C7: submission after terminate\<close>

text \<open>
  Claim C7, as the code has it: the pool has no lifecycle flag, and \<open>execute\<close> does not
  look at whether \<open>terminate\<close> has been called. A submission after \<open>terminate\<close> returns
  the same handle and changes the pool in the same way as the submission before it would:
  the task is assigned to the first available worker or queued, its Promise is left as that
  submission would leave it, and no pool-closed error is produced.
\<close>

theorem execute_ignores_terminate:
  "execute x d (terminate s) = (fst (execute x d s), terminate (snd (execute x d s)))"
proof -
  have av: "availableWorker (terminate s) = availableWorker s"
    by (rule availableWorker_cong) (simp add: terminate_def comp_def)
  have len: "length (promises (terminate s)) = length (promises s)"
    by (simp add: terminate_def)
  show ?thesis
  proof (cases "availableWorker s")
    case None
    then show ?thesis using av
      by (simp add: execute_eq) (simp add: terminate_def)
  next
    case (Some w)
    then have w: "w < length (workers s)" by (rule availableWorker_SomeD)
    have "snd (execute x d (terminate s)) = terminate (snd (execute x d s))"
      using w
      by (simp add: execute_eq av Some)
         (intro pool.equality, simp_all add: terminate_def map_update assigned_worker_def,
          intro arg_cong [where f = "list_update _ w"] worker_thread.equality,
          simp_all split: payload.splits)
    moreover have "fst (execute x d (terminate s)) = fst (execute x d s)"
      by (simp add: execute_eq len)
    ultimately show ?thesis by (simp add: prod_eq_iff)
  qed
qed

theorem execute_ignores_terminate_witness:
  "execute ''a'' (Cloneable (1::nat)) (terminate (new_WorkerPool 1 None))
     = (fst (execute ''a'' (Cloneable 1) (new_WorkerPool 1 None)),
        terminate (snd (execute ''a'' (Cloneable 1) (new_WorkerPool 1 None)))) \<and>
   fst (execute ''a'' (Cloneable (1::nat)) (terminate (new_WorkerPool 1 None))) = 0 \<and>
   promises (snd (execute ''a'' (Cloneable (1::nat)) (terminate (new_WorkerPool 1 None)))) = [[]]"
  using execute_ignores_terminate [of "''a''" "Cloneable (1::nat)" "new_WorkerPool 1 None"]
  by (simp add: pool_eval)

text \<open>
  Against C7 as stated: after \<open>terminate\<close> on a pool of one worker, the first submission
  is assigned to the terminated worker and the second is queued; both Promises are pending.
\<close>

theorem execute_after_terminate_assigns:
  "map terminated (workers (run [Terminate, Execute ''a'' (Cloneable (1::nat)), Execute ''b'' (Cloneable 2)]
     (new_WorkerPool 1 None))) = [True] \<and>
   map w_taskId (workers (run [Terminate, Execute ''a'' (Cloneable (1::nat)), Execute ''b'' (Cloneable 2)]
     (new_WorkerPool 1 None))) = [Some ''task-a''] \<and>
   map posted (workers (run [Terminate, Execute ''a'' (Cloneable (1::nat)), Execute ''b'' (Cloneable 2)]
     (new_WorkerPool 1 None))) = [[1]] \<and>
   map fst (activeWorkers (run [Terminate, Execute ''a'' (Cloneable (1::nat)), Execute ''b'' (Cloneable 2)]
     (new_WorkerPool 1 None))) = [''task-a''] \<and>
   map taskId (taskQueue (run [Terminate, Execute ''a'' (Cloneable (1::nat)), Execute ''b'' (Cloneable 2)]
     (new_WorkerPool 1 None))) = [''task-b''] \<and>
   promises (run [Terminate, Execute ''a'' (Cloneable (1::nat)), Execute ''b'' (Cloneable 2)]
     (new_WorkerPool 1 None)) = [[], []]"
  by (simp add: pool_eval)

subsection \<open>C8: a worker that exits\<close>




subsection \<open>C9: first in, first out\<close>

text \<open>
  Claim C9: let tasks \<open>A\<close> and \<open>B\<close> wait in the queue, \<open>A\<close> at position \<open>i\<close> in front of
  \<open>B\<close> at position \<open>j\<close> (submissions append at the tail, so \<open>A\<close> was queued first), in a
  state whose queued tasks have distinct, allocated Promises. Then after every list of
  events, if \<open>A\<close> is still waiting in the queue, so is \<open>B\<close>: \<open>B\<close> is never taken from
  the queue, which is the moment it is assigned, before \<open>A\<close> is.
\<close>

theorem fifo_co_queued:
  assumes d: "distinct (map handle (taskQueue s))"
    and al: "\<forall>t \<in> set (taskQueue s). handle t < length (promises s)"
    and ij: "i < j" "j < length (taskQueue s)"
  shows "handle (taskQueue s ! i) \<in> handle ` set (taskQueue (run evs s)) \<longrightarrow>
         handle (taskQueue s ! j) \<in> handle ` set (taskQueue (run evs s))"
proof
  let ?q = "taskQueue s"
  assume A: "handle (?q ! i) \<in> handle ` set (taskQueue (run evs s))"
  obtain n new where q: "taskQueue (run evs s) = drop n ?q @ new"
    and new: "\<forall>t \<in> set new. length (promises s) \<le> handle t"
    using queue_run [of evs s] by blast
  have "handle (?q ! i) < length (promises s)" using al ij by simp
  then have "handle (?q ! i) \<notin> handle ` set new" using new by fastforce
  with A q have "handle (?q ! i) \<in> handle ` set (drop n ?q)" by auto
  then obtain t where t: "t \<in> set (drop n ?q)" "handle t = handle (?q ! i)" by auto
  then obtain m where m: "m < length (drop n ?q)" "drop n ?q ! m = t"
    by (auto simp: in_set_conv_nth)
  then have mq: "n + m < length ?q" "?q ! (n + m) = t" by simp_all
  have il: "i < length (map handle ?q)" and ml: "n + m < length (map handle ?q)"
    using mq(1) ij by simp_all
  have "map handle ?q ! (n + m) = map handle ?q ! i" using mq t(2) ij by simp
  then have "n + m = i" using nth_eq_iff_index_eq [OF d ml il] by simp
  then have nj: "n \<le> j" using ij by simp
  then have "j - n < length (drop n ?q)" using ij(2) by simp
  moreover have "drop n ?q ! (j - n) = ?q ! j" using nj ij(2) by simp
  ultimately have "?q ! j \<in> set (drop n ?q)" by (metis nth_mem)
  then show "handle (?q ! j) \<in> handle ` set (taskQueue (run evs s))" using q by simp
qed

text \<open>
  One worker, tasks \<open>a\<close>, \<open>b\<close>, \<open>c\<close>: \<open>b\<close> and \<open>c\<close> wait with Promises 1 and 2. After
  the completion of \<open>a\<close> and one more submission, \<open>b\<close> is still waiting, and so is \<open>c\<close>.
\<close>

theorem fifo_co_queued_witness:
  "map handle (taskQueue (run [Execute ''a'' (Cloneable (1::nat)), Execute ''b'' (Cloneable 2), Execute ''c'' (Cloneable 3)]
      (new_WorkerPool 1 None))) = [1, 2] \<and>
   length (promises (run [Execute ''a'' (Cloneable (1::nat)), Execute ''b'' (Cloneable 2), Execute ''c'' (Cloneable 3)]
      (new_WorkerPool 1 None))) = 3 \<and>
   map handle (taskQueue (run [Message 0 (Some ''task-a'') 10, Execute ''d'' (Cloneable 4)]
      (run [Execute ''a'' (Cloneable (1::nat)), Execute ''b'' (Cloneable 2), Execute ''c'' (Cloneable 3)] (new_WorkerPool 1 None))))
     = [1, 2, 3] \<and>
   handle (taskQueue (run [Execute ''a'' (Cloneable (1::nat)), Execute ''b'' (Cloneable 2), Execute ''c'' (Cloneable 3)]
      (new_WorkerPool 1 None)) ! 1)
     \<in> handle ` set (taskQueue (run [Message 0 (Some ''task-a'') 10, Execute ''d'' (Cloneable 4)]
      (run [Execute ''a'' (Cloneable (1::nat)), Execute ''b'' (Cloneable 2), Execute ''c'' (Cloneable 3)] (new_WorkerPool 1 None))))"
proof -
  let ?s = "run [Execute ''a'' (Cloneable (1::nat)), Execute ''b'' (Cloneable 2), Execute ''c'' (Cloneable 3)] (new_WorkerPool 1 None)"
  let ?evs = "[Message 0 (Some ''task-a'') 10, Execute ''d'' (Cloneable (4::nat))]"
  have q: "map handle (taskQueue ?s) = [1, 2]" by (simp add: pool_eval)
  have p: "length (promises ?s) = 3" by (simp add: pool_eval)
  have q': "map handle (taskQueue (run ?evs ?s)) = [1, 2, 3]" by (simp add: pool_eval)
  have l: "length (taskQueue ?s) = 2" using q by (metis length_map length_Cons list.size(3) numeral_2_eq_2)
  have h0: "handle (taskQueue ?s ! 0) = 1" using q l by (metis nth_map nth_Cons_0 zero_less_numeral)
  have 1: "distinct (map handle (taskQueue ?s))" unfolding q by simp
  have 2: "\<forall>t \<in> set (taskQueue ?s). handle t < length (promises ?s)"
  proof
    fix t assume "t \<in> set (taskQueue ?s)"
    then have "handle t \<in> set (map handle (taskQueue ?s))" by simp
    then show "handle t < length (promises ?s)" unfolding q p by auto
  qed
  have 3: "(0::nat) < 1" by simp
  have 4: "1 < length (taskQueue ?s)" using l by simp
  have "handle ` set (taskQueue (run ?evs ?s)) = set (map handle (taskQueue (run ?evs ?s)))" by simp
  then have s': "handle ` set (taskQueue (run ?evs ?s)) = {1, 2, 3}" unfolding q' by simp
  have "handle (taskQueue ?s ! 0) \<in> handle ` set (taskQueue (run ?evs ?s))"
    unfolding s' h0 by simp
  with fifo_co_queued [OF 1 2 3 4, of ?evs]
  have "handle (taskQueue ?s ! 1) \<in> handle ` set (taskQueue (run ?evs ?s))" by blast
  with q p q' show ?thesis by blast
qed

subsection \<open>C10: a worker is used once\<close>

text \<open>
  Claim C10: in every state \<open>s\<close> that a run reaches from a new pool, every worker has been
  posted at most one payload, and a worker that has been posted one carries a mark that
  fails the test for an available worker. Whatever events follow, a marked worker keeps
  its mark and is posted nothing more. And once every worker has been posted a payload,
  the queue after any further events is the queue of \<open>s\<close> followed by all the tasks
  submitted since: none of them ever leaves the queue.
\<close>

theorem worker_single_use:
  assumes "s = run evs (new_WorkerPool n throws)"
  shows "(\<forall>w<length (workers s). length (posted (workers s ! w)) \<le> 1) \<and>
         (\<forall>w<length (workers s). posted (workers s ! w) \<noteq> [] \<longrightarrow>
            \<not> falsy (w_taskId (workers s ! w))) \<and>
         (\<forall>w<length (workers s). \<not> falsy (w_taskId (workers s ! w)) \<longrightarrow>
            (\<forall>evs'. w_taskId (workers (run evs' s) ! w) = w_taskId (workers s ! w) \<and>
                    posted (workers (run evs' s) ! w) = posted (workers s ! w))) \<and>
         ((\<forall>w<length (workers s). posted (workers s ! w) \<noteq> []) \<longrightarrow>
            (\<forall>evs'. taskQueue (run evs' s) = taskQueue s @ submitted (length (promises s)) evs'))"
proof -
  have inv: "pool_inv s" unfolding assms by (rule reachable_inv)
  then have p: "\<forall>w \<in> set (workers s). length (posted w) \<le> 1 \<and> (falsy (w_taskId w) \<longrightarrow> posted w = [])"
    by (simp add: pool_inv_def inv_posted_def)
  have 1: "\<forall>w<length (workers s). length (posted (workers s ! w)) \<le> 1"
    using p by simp
  have 2: "\<forall>w<length (workers s). posted (workers s ! w) \<noteq> [] \<longrightarrow>
            \<not> falsy (w_taskId (workers s ! w))"
    using p by auto
  have 3: "\<forall>w<length (workers s). \<not> falsy (w_taskId (workers s ! w)) \<longrightarrow>
            (\<forall>evs'. w_taskId (workers (run evs' s) ! w) = w_taskId (workers s ! w) \<and>
                    posted (workers (run evs' s) ! w) = posted (workers s ! w))"
    using busy_stable_run by blast
  have 4: "(\<forall>w<length (workers s). posted (workers s ! w) \<noteq> []) \<longrightarrow>
            (\<forall>evs'. taskQueue (run evs' s) = taskQueue s @ submitted (length (promises s)) evs')"
  proof (intro impI allI)
    fix evs'
    assume "\<forall>w<length (workers s). posted (workers s ! w) \<noteq> []"
    with 2 have "availableWorker s = None" by (simp add: availableWorker_None)
    moreover have "\<not> exited s" using inv by (simp add: pool_inv_def)
    ultimately show "taskQueue (run evs' s) = taskQueue s @ submitted (length (promises s)) evs'"
      by (rule saturated_run)
  qed
  from 1 2 3 4 show ?thesis by blast
qed

text \<open>
  Two workers, each posted one task. Both tasks complete, and two more tasks are submitted:
  the workers keep their marks and the two new tasks stay in the queue.
\<close>

theorem worker_single_use_witness:
  "map posted (workers (run [Execute ''a'' (Cloneable (1::nat)), Execute ''b'' (Cloneable 2)] (new_WorkerPool 2 None)))
     = [[1], [2]] \<and>
   map w_taskId (workers (run [Message 0 (Some ''task-a'') 10, Execute ''c'' (Cloneable 3),
        Message 1 (Some ''task-b'') 11, Execute ''d'' (Cloneable 4)]
      (run [Execute ''a'' (Cloneable (1::nat)), Execute ''b'' (Cloneable 2)] (new_WorkerPool 2 None))))
     = [Some ''task-a'', Some ''task-b''] \<and>
   taskQueue (run [Message 0 (Some ''task-a'') 10, Execute ''c'' (Cloneable 3),
        Message 1 (Some ''task-b'') 11, Execute ''d'' (Cloneable 4)]
      (run [Execute ''a'' (Cloneable (1::nat)), Execute ''b'' (Cloneable 2)] (new_WorkerPool 2 None)))
     = [\<lparr>taskId = ''task-c'', data = Cloneable 3, handle = 2, worker = None\<rparr>,
        \<lparr>taskId = ''task-d'', data = Cloneable 4, handle = 3, worker = None\<rparr>]"
proof -
  let ?s = "run [Execute ''a'' (Cloneable (1::nat)), Execute ''b'' (Cloneable 2)] (new_WorkerPool 2 None)"
  let ?evs = "[Message 0 (Some ''task-a'') 10, Execute ''c'' (Cloneable (3::nat)),
        Message 1 (Some ''task-b'') 11, Execute ''d'' (Cloneable 4)]"
  note t = worker_single_use [of ?s "[Execute ''a'' (Cloneable (1::nat)), Execute ''b'' (Cloneable 2)]" 2 None, OF refl]
  have ws: "map posted (workers ?s) = [[1], [2]]" by (simp add: pool_eval)
  have ids: "map w_taskId (workers (run ?evs ?s)) = [Some ''task-a'', Some ''task-b'']"
    by (simp add: pool_eval)
  have l: "length (workers ?s) = 2" using ws by (metis length_map length_Cons list.size(3) numeral_2_eq_2)
  have all: "\<forall>w<length (workers ?s). posted (workers ?s ! w) \<noteq> []"
  proof (intro allI impI)
    fix w assume w: "w < length (workers ?s)"
    then have "posted (workers ?s ! w) = map posted (workers ?s) ! w" by simp
    also have "\<dots> \<noteq> []" using w unfolding ws l by (auto simp: less_2_cases_iff)
    finally show "posted (workers ?s ! w) \<noteq> []" .
  qed
  have q: "taskQueue ?s = []" by (simp add: pool_eval)
  have pl: "length (promises ?s) = 2" by (simp add: pool_eval)
  from t all have "taskQueue (run ?evs ?s) = taskQueue ?s @ submitted (length (promises ?s)) ?evs"
    by blast
  then have "taskQueue (run ?evs ?s)
     = [\<lparr>taskId = ''task-c'', data = Cloneable 3, handle = 2, worker = None\<rparr>,
        \<lparr>taskId = ''task-d'', data = Cloneable 4, handle = 3, worker = None\<rparr>]"
    unfolding q pl by (simp add: numeral_3_eq_3 numeral_2_eq_2)
  with ws ids show ?thesis by blast
qed

end
